theory Spec2Isabelle
  imports Main
begin

section \<open>Values, arrays and the store\<close>

text \<open>
  The tree engine of \<^verbatim>\<open>lib/merkletree.js\<close> works on JavaScript arrays of bigints.
  Arrays are objects: \<^verbatim>\<open>ensureEven\<close> and \<^verbatim>\<open>padTree\<close> push onto arrays that
  the caller and the tree share.  The store below keeps every array under an address; an
  array variable of the source is an address here.  A bigint is an \<^typ>\<open>int\<close>, and a read
  that may yield \<^verbatim>\<open>undefined\<close> is an \<^typ>\<open>int option\<close> with \<^term>\<open>None\<close> for
  \<^verbatim>\<open>undefined\<close>.  An exception is a value \<^term>\<open>Inl e\<close>; the store at the moment of
  the exception is not observed.
\<close>

type_synonym addr = nat

type_synonym heap = "int list list"

datatype error = TypeError

definition arr :: "heap \<Rightarrow> addr \<Rightarrow> int list" where
  "arr h a = (if a < length h then h ! a else [])"

text \<open>\<^verbatim>\<open>xs[i]\<close>: \<^verbatim>\<open>undefined\<close> outside \<^verbatim>\<open>0 .. xs.length - 1\<close>.\<close>

definition elemAt :: "int list \<Rightarrow> int \<Rightarrow> int option" where
  "elemAt xs i = (if 0 \<le> i \<and> i < int (length xs) then Some (xs ! nat i) else None)"

text \<open>\<^verbatim>\<open>a.push(v)\<close> on the array stored at \<open>a\<close>.\<close>

definition push :: "addr \<Rightarrow> int \<Rightarrow> heap \<Rightarrow> heap" where
  "push a v h = h[a := arr h a @ [v]]"

text \<open>The remainder operator \<^verbatim>\<open>%\<close> of JavaScript takes the sign of the dividend.\<close>

definition jsRem :: "int \<Rightarrow> int \<Rightarrow> int" where
  "jsRem a b = sgn a * (\<bar>a\<bar> mod \<bar>b\<bar>)"

text \<open>\<^verbatim>\<open>xs.findIndex(h => h === leaf)\<close>: the first position holding \<open>leaf\<close>, or \<open>-1\<close>.\<close>

fun findIndex :: "int list \<Rightarrow> int \<Rightarrow> int" where
  "findIndex [] leaf = - 1"
| "findIndex (h # hs) leaf =
     (if h = leaf then 0
      else (let r = findIndex hs leaf in if r < 0 then - 1 else r + 1))"

section \<open>The hash\<close>

text \<open>
  \<^verbatim>\<open>hashLeaves(left, right)\<close> of \<^verbatim>\<open>lib/index.js\<close> is
  \<^verbatim>\<open>poseidon([BigInt(left), BigInt(right)])\<close>.  The Poseidon permutation comes from
  the library circomlibjs; it is the parameter \<open>P\<close> of every function below.
  \<^verbatim>\<open>BigInt(undefined)\<close> throws a TypeError.
\<close>

type_synonym poseidon = "int \<Rightarrow> int \<Rightarrow> int"

definition hashLeaves :: "poseidon \<Rightarrow> int option \<Rightarrow> int option \<Rightarrow> error + int" where
  "hashLeaves P left right =
     (case left of
        None \<Rightarrow> Inl TypeError
      | Some l \<Rightarrow> (case right of None \<Rightarrow> Inl TypeError | Some r \<Rightarrow> Inr (P l r)))"

text \<open>The stand-in hash of the specification's concrete scenario, \<open>H(a, b) = a + b\<close>.\<close>

definition sumHash :: poseidon where
  "sumHash a b = a + b"

section \<open>The tree builder\<close>

definition TREELEVELS :: int where
  "TREELEVELS = 20"

datatype HashDirection = LEFT | RIGHT

record MerkleProofParams =
  hash :: "int option"
  direction :: HashDirection

type_synonym MerkleProof = "MerkleProofParams list"

record Tree =
  layers :: "addr list"

record TreeAndRoot =
  tree :: Tree
  root :: "int option"

definition ensureEven :: "addr \<Rightarrow> heap \<Rightarrow> heap" where
  "ensureEven leaves h =
     (if length (arr h leaves) mod 2 \<noteq> 0
      then push leaves (last (arr h leaves)) h
      else h)"

text \<open>
  The loop of \<^verbatim>\<open>generateMerkleRoot\<close>:
  \<^verbatim>\<open>for (let i = 0; i < leaves.length; i += 2) combinedHashes.push(await hashLeaves(leaves[i], leaves[i + 1]))\<close>.
  The array \<open>leaves\<close> does not change while the loop runs, so the loop takes its contents.
\<close>

function hashLoop :: "poseidon \<Rightarrow> int list \<Rightarrow> nat \<Rightarrow> int list \<Rightarrow> error + int list" where
  "hashLoop P leaves i combinedHashes =
     (if i < length leaves
      then (case hashLeaves P (elemAt leaves (int i)) (elemAt leaves (int i + 1)) of
              Inl e \<Rightarrow> Inl e
            | Inr newHash \<Rightarrow> hashLoop P leaves (i + 2) (combinedHashes @ [newHash]))
      else Inr combinedHashes)"
  by pat_completeness auto
termination
  by (relation "measure (\<lambda>(P, leaves, i, combinedHashes). length leaves - i)") auto

declare hashLoop.simps [simp del]

text \<open>
  \<^verbatim>\<open>generateMerkleRoot(leaves, tree)\<close>.  The result is the returned array (a fresh
  empty array for empty leaves, else the last \<open>combinedHashes\<close>), the tree object with
  the layers pushed onto it, and the store.
\<close>

function generateMerkleRoot ::
  "poseidon \<Rightarrow> addr \<Rightarrow> Tree \<Rightarrow> heap \<Rightarrow> error + (addr \<times> Tree \<times> heap)" where
  "generateMerkleRoot P leaves t h =
     (if length (arr h leaves) = 0 then Inr (length h, t, h @ [[]])
      else (case hashLoop P (arr (ensureEven leaves h) leaves) 0 [] of
              Inl e \<Rightarrow> Inl e
            | Inr combinedHashes \<Rightarrow>
                if length combinedHashes = 1
                then Inr (length h, t\<lparr>layers := layers t @ [length h]\<rparr>,
                          ensureEven leaves h @ [combinedHashes])
                else generateMerkleRoot P (length h)
                       (t\<lparr>layers := layers t @ [length h]\<rparr>)
                       (ensureEven leaves h @ [combinedHashes])))"
  by pat_completeness auto
termination
proof (relation "measure (\<lambda>(P, leaves, t, h). length (arr h leaves))", goal_cases)
  case 1
  show ?case by simp
next
  case (2 P leaves t h combinedHashes)
  have produced: "length out = length acc + (length ls - i + 1) div 2"
    if "hashLoop Q ls i acc = Inr out" for Q ls i acc out
    using that
  proof (induction Q ls i acc rule: hashLoop.induct)
    case (1 Q ls i acc)
    show ?case
    proof (cases "i < length ls")
      case False
      with "1.prems" show ?thesis by (simp add: hashLoop.simps[of Q ls i])
    next
      case True
      from True "1.prems" obtain newHash where
        nh: "hashLeaves Q (elemAt ls (int i)) (elemAt ls (int i + 1)) = Inr newHash"
        and rec: "hashLoop Q ls (i + 2) (acc @ [newHash]) = Inr out"
        by (auto simp: hashLoop.simps[of Q ls i] split: sum.splits)
      from "1.IH"[OF True nh rec] True show ?thesis by simp arith
    qed
  qed
  have len: "length (ensureEven leaves h) = length h"
    by (simp add: ensureEven_def push_def)
  have "length combinedHashes = (length (arr (ensureEven leaves h) leaves) + 1) div 2"
    using produced[OF 2(2)] by simp
  moreover have "length (arr (ensureEven leaves h) leaves) \<le> length (arr h leaves) + 1"
    by (auto simp: ensureEven_def push_def arr_def)
  moreover have "even (length (arr (ensureEven leaves h) leaves))"
    by (auto simp: ensureEven_def push_def arr_def)
  ultimately have "length combinedHashes < length (arr h leaves)"
    using 2(1,3) by presburger
  then show ?case
    by (simp add: arr_def len nth_append)
qed

declare generateMerkleRoot.simps [simp del]

text \<open>
  The loop of \<^verbatim>\<open>padTree\<close>, from \<^verbatim>\<open>i = tree.layers.length - 1\<close> while
  \<^verbatim>\<open>i < TREELEVELS - 1\<close>.  Reading \<^verbatim>\<open>tree.layers[i][0]\<close> throws when
  \<^verbatim>\<open>tree.layers[i]\<close> is \<^verbatim>\<open>undefined\<close>; on an empty layer \<open>lastRoot\<close> is
  \<^verbatim>\<open>undefined\<close>, it is pushed, and \<^verbatim>\<open>hashLeaves(undefined, undefined)\<close> throws.
\<close>

function padLoop :: "poseidon \<Rightarrow> int \<Rightarrow> Tree \<Rightarrow> heap \<Rightarrow> error + (Tree \<times> heap)" where
  "padLoop P i t h =
     (if i < TREELEVELS - 1
      then (if 0 \<le> i \<and> i < int (length (layers t))
            then (case elemAt (arr h (layers t ! nat i)) 0 of
                    None \<Rightarrow> Inl TypeError
                  | Some lastRoot \<Rightarrow>
                     (case hashLeaves P (Some lastRoot) (Some lastRoot) of
                        Inl e \<Rightarrow> Inl e
                      | Inr newRoot \<Rightarrow>
                          padLoop P (i + 1) (t\<lparr>layers := layers t @ [length h]\<rparr>)
                            (push (layers t ! nat i) lastRoot h @ [[newRoot]])))
            else Inl TypeError)
      else Inr (t, h))"
  by pat_completeness auto
termination
  by (relation "measure (\<lambda>(P, i, t, h). nat (TREELEVELS - 1 - i))") auto

declare padLoop.simps [simp del]

definition padTree :: "poseidon \<Rightarrow> Tree \<Rightarrow> heap \<Rightarrow> error + (TreeAndRoot \<times> heap)" where
  "padTree P t h =
     (case padLoop P (int (length (layers t)) - 1) t h of
        Inl e \<Rightarrow> Inl e
      | Inr (t', h') \<Rightarrow>
          (if layers t' = [] then Inl TypeError
           else Inr (\<lparr>tree = t', root = elemAt (arr h' (last (layers t'))) 0\<rparr>, h')))"

definition generateMerkleTree :: "poseidon \<Rightarrow> addr \<Rightarrow> heap \<Rightarrow> error + (TreeAndRoot \<times> heap)" where
  "generateMerkleTree P leaves h =
     (case generateMerkleRoot P leaves \<lparr>layers = [leaves]\<rparr> h of
        Inl e \<Rightarrow> Inl e
      | Inr (r, t, h') \<Rightarrow> padTree P t h')"

section \<open>The proof generator\<close>

definition getLeafNodeDirectionInMerkleTree ::
  "int \<Rightarrow> addr list \<Rightarrow> heap \<Rightarrow> error + HashDirection" where
  "getLeafNodeDirectionInMerkleTree leaf merkleTree h =
     (case merkleTree of
        [] \<Rightarrow> Inl TypeError
      | l0 # _ \<Rightarrow>
          (let hashIndex = findIndex (arr h l0) leaf
           in Inr (if jsRem hashIndex 2 = 0 then LEFT else RIGHT)))"

text \<open>
  The loop of \<^verbatim>\<open>generateMerkleProof\<close> over
  \<^verbatim>\<open>level = 0 .. tree.layers.length - 2\<close>; \<^verbatim>\<open>Math.floor(hashIndex / 2)\<close> is
  \<open>hashIndex div 2\<close>, which rounds down on \<^typ>\<open>int\<close>.
\<close>

function proofLoop ::
  "addr list \<Rightarrow> heap \<Rightarrow> nat \<Rightarrow> int \<Rightarrow> MerkleProof \<Rightarrow> MerkleProof" where
  "proofLoop ls h level hashIndex merkleProof =
     (if int level < int (length ls) - 1
      then (let isLeftChild = (jsRem hashIndex 2 = 0);
                siblingDirection = (if isLeftChild then RIGHT else LEFT);
                siblingIndex = (if isLeftChild then hashIndex + 1 else hashIndex - 1);
                siblingNode = \<lparr>hash = elemAt (arr h (ls ! level)) siblingIndex,
                               direction = siblingDirection\<rparr>
            in proofLoop ls h (level + 1) (hashIndex div 2) (merkleProof @ [siblingNode]))
      else merkleProof)"
  by pat_completeness auto
termination
  by (relation "measure (\<lambda>(ls, h, level, hashIndex, merkleProof). length ls - level)") auto

declare proofLoop.simps [simp del]

text \<open>
  \<^verbatim>\<open>generateMerkleProof(leaf, leaves, cachedTree)\<close>.  The parameters have their
  documented types: \<open>leaf\<close> is a bigint, so \<^verbatim>\<open>!leaf\<close> holds exactly for \<open>0n\<close>;
  \<open>leaves\<close> is an array, so \<^verbatim>\<open>!leaves\<close> is false; \<open>cachedTree\<close> is a tree object
  or \<^verbatim>\<open>null\<close>.  The result \<^term>\<open>None\<close> is \<^verbatim>\<open>null\<close>.
\<close>

definition generateMerkleProof ::
  "poseidon \<Rightarrow> int \<Rightarrow> addr \<Rightarrow> Tree option \<Rightarrow> heap \<Rightarrow> error + (MerkleProof option \<times> heap)" where
  "generateMerkleProof P leaf leaves cachedTree h =
     (if leaf = 0 \<or> length (arr h leaves) = 0 then Inr (None, h)
      else (case (case cachedTree of
                    Some c \<Rightarrow> Inr (c, h)
                  | None \<Rightarrow> (case generateMerkleTree P leaves h of
                               Inl e \<Rightarrow> Inl e
                             | Inr (r, h') \<Rightarrow> Inr (tree r, h'))) of
              Inl e \<Rightarrow> Inl e
            | Inr (t, h') \<Rightarrow>
                (case getLeafNodeDirectionInMerkleTree leaf (layers t) h' of
                   Inl e \<Rightarrow> Inl e
                 | Inr d \<Rightarrow>
                     (let merkleProof = [\<lparr>hash = Some leaf, direction = d\<rparr>];
                          hashIndex = findIndex (arr h' (layers t ! 0)) leaf
                      in Inr (Some (proofLoop (layers t) h' 0 hashIndex merkleProof), h')))))"

section \<open>The proof verifier\<close>

function rootLoop :: "poseidon \<Rightarrow> MerkleProof \<Rightarrow> nat \<Rightarrow> int option \<Rightarrow> error + int option" where
  "rootLoop P merkleProof i accumulator =
     (if i < length merkleProof
      then (let node = merkleProof ! i
            in case (if direction node = RIGHT
                     then hashLeaves P accumulator (hash node)
                     else hashLeaves P (hash node) accumulator) of
                 Inl e \<Rightarrow> Inl e
               | Inr hsh \<Rightarrow> rootLoop P merkleProof (i + 1) (Some hsh))
      else Inr accumulator)"
  by pat_completeness auto
termination
  by (relation "measure (\<lambda>(P, merkleProof, i, accumulator). length merkleProof - i)") auto

declare rootLoop.simps [simp del]

text \<open>\<^verbatim>\<open>merkleProof[0].hash\<close> throws on an empty proof.\<close>

definition getMerkleRootFromMerkleProof :: "poseidon \<Rightarrow> MerkleProof \<Rightarrow> error + int option" where
  "getMerkleRootFromMerkleProof P merkleProof =
     (case merkleProof of
        [] \<Rightarrow> Inl TypeError
      | e # _ \<Rightarrow> rootLoop P merkleProof 1 (hash e))"

section \<open>The results of the calls\<close>

text \<open>
  The functions of this section read one component off the result of a call.
  \<open>rootOfGeneratedProof\<close> is the call
  \<^verbatim>\<open>getMerkleRootFromMerkleProof(await generateMerkleProof(...))\<close>: on \<^verbatim>\<open>null\<close> the
  read \<^verbatim>\<open>merkleProof[0]\<close> throws.  \<open>rootOfBuiltTree\<close> is
  \<^verbatim>\<open>(await generateMerkleTree(...)).root\<close>.  \<open>generatedProof\<close> and \<open>proofLength\<close> are
  the proof that \<^verbatim>\<open>generateMerkleProof\<close> returns and its number of entries,
  \<open>layerCount\<close> is the number of layers of a built tree, and \<open>leavesAfter a\<close> is the
  array at \<open>a\<close> in the store that a call leaves behind.
\<close>

definition rootOfGeneratedProof ::
  "poseidon \<Rightarrow> error + (MerkleProof option \<times> heap) \<Rightarrow> error + int option" where
  "rootOfGeneratedProof P res =
     (case res of
        Inl e \<Rightarrow> Inl e
      | Inr (None, h') \<Rightarrow> Inl TypeError
      | Inr (Some p, h') \<Rightarrow> getMerkleRootFromMerkleProof P p)"

definition rootOfBuiltTree :: "error + (TreeAndRoot \<times> heap) \<Rightarrow> error + int option" where
  "rootOfBuiltTree res = (case res of Inl e \<Rightarrow> Inl e | Inr (r, h') \<Rightarrow> Inr (root r))"

definition generatedProof :: "error + (MerkleProof option \<times> heap) \<Rightarrow> error + MerkleProof option" where
  "generatedProof res = (case res of Inl e \<Rightarrow> Inl e | Inr (p, h') \<Rightarrow> Inr p)"

definition proofLength :: "error + (MerkleProof option \<times> heap) \<Rightarrow> error + nat option" where
  "proofLength res =
     (case res of
        Inl e \<Rightarrow> Inl e
      | Inr (None, h') \<Rightarrow> Inr None
      | Inr (Some p, h') \<Rightarrow> Inr (Some (length p)))"

definition layerCount :: "error + (TreeAndRoot \<times> heap) \<Rightarrow> error + nat" where
  "layerCount res =
     (case res of Inl e \<Rightarrow> Inl e | Inr (r, h') \<Rightarrow> Inr (length (layers (tree r))))"

definition leavesAfter :: "addr \<Rightarrow> error + ('a \<times> heap) \<Rightarrow> error + int list" where
  "leavesAfter a res = (case res of Inl e \<Rightarrow> Inl e | Inr (v, h') \<Rightarrow> Inr (arr h' a))"

section \<open>The verifier of the specification\<close>

text \<open>
  The fold of the specification, section 4.3: one step takes the accumulator and an entry
  and hashes them in the order the entry's direction gives.  The hash is
  \<^verbatim>\<open>hashLeaves\<close>, so a step on an \<^verbatim>\<open>undefined\<close> value throws as the program does.
\<close>

fun foldStep :: "poseidon \<Rightarrow> error + int option \<Rightarrow> MerkleProofParams \<Rightarrow> error + int option" where
  "foldStep P (Inl e) entry = Inl e"
| "foldStep P (Inr acc) entry =
     (case direction entry of
        RIGHT \<Rightarrow> map_sum id Some (hashLeaves P acc (hash entry))
      | LEFT \<Rightarrow> map_sum id Some (hashLeaves P (hash entry) acc))"

definition verifierFold :: "poseidon \<Rightarrow> MerkleProof \<Rightarrow> error + int option" where
  "verifierFold P p = foldl (foldStep P) (Inr (hash (hd p))) (tl p)"

section \<open>The layers as values\<close>

text \<open>
  The functions of this section are not part of the program: they describe, as plain
  lists, what the builder leaves in the store and what the proof generator reads there.
  \<open>evenPad\<close> is an array after \<^verbatim>\<open>ensureEven\<close>, \<open>pairUp\<close> the pairwise hashes of an
  array, and \<open>upper\<close> the arrays that \<^verbatim>\<open>generateMerkleRoot\<close> allocates, in the order
  of allocation.  \<open>padFrom P r n\<close> is what \<^verbatim>\<open>padTree\<close> makes of a last layer \<open>[r]\<close>
  in \<open>n\<close> rounds, and \<open>aboveLeaves\<close> lists the arrays of a built tree above layer 0.
  \<open>siblings ls i\<close> is the list of entries that the loop of \<^verbatim>\<open>generateMerkleProof\<close>
  appends when the layers hold \<open>ls\<close> and the walk starts at index \<open>i\<close>.  A list of
  layers is \<open>chained\<close> when every layer but the last is non-empty and of even length, the
  next layer starts with its pairwise hashes, and the last layer has one element.
\<close>

definition evenPad :: "int list \<Rightarrow> int list" where
  "evenPad xs = (if length xs mod 2 \<noteq> 0 then xs @ [last xs] else xs)"

fun pairUp :: "poseidon \<Rightarrow> int list \<Rightarrow> int list" where
  "pairUp P (x # y # rest) = P x y # pairUp P rest"
| "pairUp P [x] = []"
| "pairUp P [] = []"

function upper :: "poseidon \<Rightarrow> int list \<Rightarrow> int list list" where
  "upper P xs =
     (if length (pairUp P (evenPad xs)) \<le> 1 then [pairUp P (evenPad xs)]
      else evenPad (pairUp P (evenPad xs)) # upper P (pairUp P (evenPad xs)))"
  by pat_completeness auto
termination
proof (relation "measure (\<lambda>(P, xs). length xs)", goal_cases)
  case 1
  show ?case by simp
next
  case (2 P xs)
  have halves: "length (pairUp Q ys) = length ys div 2" for Q ys
    by (induction Q ys rule: pairUp.induct) simp_all
  have "length (evenPad xs) \<le> length xs + 1"
    by (simp add: evenPad_def)
  with 2 show ?case
    by (simp add: halves)
qed

declare upper.simps [simp del]

fun padFrom :: "poseidon \<Rightarrow> int \<Rightarrow> nat \<Rightarrow> int list list" where
  "padFrom P r 0 = [[r]]"
| "padFrom P r (Suc n) = [r, r] # padFrom P (P r r) n"

definition aboveLeaves :: "poseidon \<Rightarrow> int list \<Rightarrow> int list list" where
  "aboveLeaves P xs =
     butlast (upper P xs) @
     padFrom P (hd (last (upper P xs))) (19 - length (upper P xs))"

fun siblings :: "int list list \<Rightarrow> int \<Rightarrow> MerkleProof" where
  "siblings (l # l' # rest) i =
     \<lparr>hash = elemAt l (if jsRem i 2 = 0 then i + 1 else i - 1),
      direction = (if jsRem i 2 = 0 then RIGHT else LEFT)\<rparr> # siblings (l' # rest) (i div 2)"
| "siblings [l] i = []"
| "siblings [] i = []"

fun chained :: "poseidon \<Rightarrow> int list list \<Rightarrow> bool" where
  "chained P (l # l' # rest) =
     (l \<noteq> [] \<and> even (length l) \<and> take (length l div 2) l' = pairUp P l \<and> chained P (l' # rest))"
| "chained P [l] = (length l = 1)"
| "chained P [] = False"

section \<open>The builder in terms of lists\<close>

lemma length_pairUp: "length (pairUp P xs) = length xs div 2"
  by (induction P xs rule: pairUp.induct) simp_all

lemma even_length_evenPad [simp]: "even (length (evenPad xs))"
  by (simp add: evenPad_def) presburger

lemma evenPad_Nil_iff [simp]: "evenPad xs = [] \<longleftrightarrow> xs = []"
  by (auto simp: evenPad_def)

lemma length_evenPad_le: "length (evenPad xs) \<le> length xs + 1"
  by (simp add: evenPad_def)

lemma pairUp_evenPad_pos: "xs \<noteq> [] \<Longrightarrow> 0 < length (evenPad xs) div 2"
proof -
  assume "xs \<noteq> []"
  then obtain n where "length xs = Suc n"
    by (cases xs) auto
  then show ?thesis
    by (simp add: evenPad_def) presburger
qed

lemma upper_not_Nil [simp]: "upper P xs \<noteq> []"
  by (simp add: upper.simps[of P xs])

lemma upper_length_pos: "Suc 0 \<le> length (upper P xs)"
  by (cases "upper P xs") simp_all

lemma elemAt_nat [simp]: "elemAt xs (int i) = (if i < length xs then Some (xs ! i) else None)"
  by (simp add: elemAt_def)

lemma elemAt_nat_Suc [simp]:
  "elemAt xs (int i + 1) = (if Suc i < length xs then Some (xs ! Suc i) else None)"
  by (simp add: elemAt_def nat_add_distrib)

lemma hashLoop_pairUp:
  "i \<le> length xs \<Longrightarrow> even (length xs - i) \<Longrightarrow>
     hashLoop P xs i acc = Inr (acc @ pairUp P (drop i xs))"
proof (induction P xs i acc rule: hashLoop.induct)
  case (1 P xs i acc)
  show ?case
  proof (cases "i < length xs")
    case False
    with "1.prems" show ?thesis by (subst hashLoop.simps) simp
  next
    case True
    have "length xs - i \<noteq> 1"
    proof
      assume e: "length xs - i = 1"
      from "1.prems"(2) show False unfolding e by simp
    qed
    with True have two: "Suc i < length xs"
      by arith
    then have d: "drop i xs = xs ! i # xs ! Suc i # drop (i + 2) xs"
      by (simp add: Cons_nth_drop_Suc True)
    have nh: "hashLeaves P (elemAt xs (int i)) (elemAt xs (int i + 1)) = Inr (P (xs ! i) (xs ! Suc i))"
      using True two by (simp add: hashLeaves_def)
    have "hashLoop P xs (i + 2) (acc @ [P (xs ! i) (xs ! Suc i)]) =
            Inr ((acc @ [P (xs ! i) (xs ! Suc i)]) @ pairUp P (drop (i + 2) xs))"
      using "1.prems" two by (intro "1.IH"[OF True nh]) auto
    with True nh d show ?thesis
      by (simp add: hashLoop.simps[of P xs i])
  qed
qed

lemma ensureEven_eq:
  "a < length h \<Longrightarrow> ensureEven a h = h[a := evenPad (h ! a)]"
  by (simp add: ensureEven_def push_def arr_def evenPad_def)

lemma generateMerkleRoot_eq:
  "a < length h \<Longrightarrow> h ! a = xs \<Longrightarrow> xs \<noteq> [] \<Longrightarrow>
     generateMerkleRoot P a t h =
       Inr (length h + length (upper P xs) - 1,
            t\<lparr>layers := layers t @ [length h ..< length h + length (upper P xs)]\<rparr>,
            h[a := evenPad xs] @ upper P xs)"
proof (induction P xs arbitrary: a t h rule: upper.induct)
  case (1 P xs)
  let ?c = "pairUp P (evenPad xs)"
  let ?h1 = "h[a := evenPad xs]"
  have ee: "ensureEven a h = ?h1"
    using "1.prems" by (simp add: ensureEven_eq)
  have rd: "arr ?h1 a = evenPad xs"
    using "1.prems" by (simp add: arr_def)
  have hl: "hashLoop P (evenPad xs) 0 [] = Inr ?c"
    by (simp add: hashLoop_pairUp)
  have ne: "length (arr h a) \<noteq> 0"
    using "1.prems" by (simp add: arr_def)
  have cpos: "length ?c \<noteq> 0"
    using "1.prems" by (simp add: pairUp_evenPad_pos length_pairUp)
  show ?case
  proof (cases "length ?c = 1")
    case True
    then have u: "upper P xs = [?c]"
      by (simp add: upper.simps[of P xs])
    show ?thesis
      using ne True
      by (simp add: generateMerkleRoot.simps[of P a t h] ee rd hl u)
  next
    case False
    with cpos have big: "\<not> length ?c \<le> 1" by linarith
    then have u: "upper P xs = evenPad ?c # upper P ?c"
      by (simp add: upper.simps[of P xs])
    let ?h2 = "?h1 @ [?c]"
    let ?t2 = "t\<lparr>layers := layers t @ [length h]\<rparr>"
    have cne: "?c \<noteq> []" using cpos by auto
    have ih: "generateMerkleRoot P (length h) ?t2 ?h2 =
       Inr (length ?h2 + length (upper P ?c) - 1,
            ?t2\<lparr>layers := layers ?t2 @ [length ?h2 ..< length ?h2 + length (upper P ?c)]\<rparr>,
            ?h2[length h := evenPad ?c] @ upper P ?c)"
      by (rule "1.IH"[OF big]) (simp_all add: cne nth_append)
    have upd: "?h2[length h := evenPad ?c] = ?h1 @ [evenPad ?c]"
      by (simp add: list_update_append)
    have pos: "Suc 0 \<le> length (upper P ?c)"
      by (rule upper_length_pos)
    have idx: "[length h ..< length h + Suc (length (upper P ?c))]
                 = length h # [Suc (length h) ..< Suc (length h) + length (upper P ?c)]"
      using pos by (simp add: upt_conv_Cons)
    show ?thesis
      using ne False idx pos
      by (simp add: generateMerkleRoot.simps[of P a t h] ee rd hl ih upd u)
  qed
qed

lemma padFrom_not_Nil [simp]: "padFrom P r n \<noteq> []"
  by (cases n) simp_all

lemma length_padFrom [simp]: "length (padFrom P r n) = Suc n"
  by (induction n arbitrary: r) simp_all

lemma last_padFrom: "length (last (padFrom P r n)) = 1"
  by (induction n arbitrary: r) simp_all

lemma padLoop_eq:
  "length (layers t) = Suc i \<Longrightarrow> last (layers t) = b \<Longrightarrow> b < length h \<Longrightarrow> h ! b = [r] \<Longrightarrow>
   n = 19 - i \<Longrightarrow>
     padLoop P (int i) t h =
       Inr (t\<lparr>layers := layers t @ [length h ..< length h + n]\<rparr>,
            h[b := hd (padFrom P r n)] @ tl (padFrom P r n))"
proof (induction n arbitrary: i t h b r)
  case 0
  then have "\<not> int i < TREELEVELS - 1"
    by (simp add: TREELEVELS_def)
  moreover have "h[b := [r]] = h"
    using 0 by (metis list_update_id)
  ultimately show ?case
    using 0 by (simp add: padLoop.simps[of P "int i"])
next
  case (Suc n)
  let ?t' = "t\<lparr>layers := layers t @ [length h]\<rparr>"
  let ?h' = "push b r h @ [[P r r]]"
  from Suc.prems have lt: "int i < TREELEVELS - 1"
    by (simp add: TREELEVELS_def)
  from Suc.prems have ne: "layers t \<noteq> []" by auto
  from Suc.prems have nth: "layers t ! i = b"
    using last_conv_nth[OF ne] by simp
  have rd: "elemAt (arr h b) 0 = Some r"
    using Suc.prems by (simp add: elemAt_def arr_def)
  have ps: "push b r h = h[b := [r, r]]"
    using Suc.prems by (simp add: push_def arr_def)
  have ih: "padLoop P (int (Suc i)) ?t' ?h' =
       Inr (?t'\<lparr>layers := layers ?t' @ [length ?h' ..< length ?h' + n]\<rparr>,
            ?h'[length h := hd (padFrom P (P r r) n)] @ tl (padFrom P (P r r) n))"
    using Suc.prems by (intro Suc.IH) (simp_all add: ps nth_append)
  have step: "padLoop P (int i) t h = padLoop P (int (Suc i)) ?t' ?h'"
    using lt Suc.prems nth rd
    by (simp add: padLoop.simps[of P "int i"] hashLeaves_def add.commute)
  have rec: "?t'\<lparr>layers := layers ?t' @ [length ?h' ..< length ?h' + n]\<rparr>
               = t\<lparr>layers := layers t @ [length h ..< length h + Suc n]\<rparr>"
    by (simp add: ps upt_conv_Cons del: upt_Suc)
  have hp: "?h'[length h := hd (padFrom P (P r r) n)] @ tl (padFrom P (P r r) n)
              = h[b := [r, r]] @ padFrom P (P r r) n"
    by (simp add: ps list_update_append)
  show ?case
    unfolding step ih hp rec by (simp add: ps)
qed

lemma last_upper:
  "xs \<noteq> [] \<Longrightarrow> length (last (upper P xs)) = 1"
proof (induction P xs rule: upper.induct)
  case (1 P xs)
  let ?c = "pairUp P (evenPad xs)"
  have cpos: "length ?c \<noteq> 0"
    using "1.prems" by (simp add: pairUp_evenPad_pos length_pairUp)
  show ?case
  proof (cases "length ?c \<le> 1")
    case True
    with cpos have "length ?c = 1" by linarith
    with True show ?thesis by (simp add: upper.simps[of P xs])
  next
    case False
    with cpos have "?c \<noteq> []" by auto
    with False "1.IH" show ?thesis
      by (simp add: upper.simps[of P xs])
  qed
qed

lemma generateMerkleTree_eq:
  assumes "a < length h" and "h ! a = xs" and "xs \<noteq> []"
  shows "generateMerkleTree P a h =
           Inr (\<lparr>tree = \<lparr>layers = a # [length h ..< length h + length (aboveLeaves P xs)]\<rparr>,
                 root = Some (hd (last (aboveLeaves P xs)))\<rparr>,
                h[a := evenPad xs] @ aboveLeaves P xs)"
proof -
  let ?U = "upper P xs"
  let ?k = "length ?U"
  let ?n = "19 - ?k"
  let ?t1 = "\<lparr>layers = a # [length h ..< length h + ?k]\<rparr>"
  let ?h1 = "h[a := evenPad xs] @ ?U"
  let ?b = "length h + (?k - 1)"
  obtain r where r: "last ?U = [r]"
    using last_upper[OF assms(3), of P] by (cases "last ?U") auto
  let ?Pd = "padFrom P r ?n"
  have kpos: "Suc 0 \<le> ?k" by (rule upper_length_pos)
  have gmr: "generateMerkleRoot P a \<lparr>layers = [a]\<rparr> h = Inr (length h + ?k - 1, ?t1, ?h1)"
    using generateMerkleRoot_eq[OF assms, of P "\<lparr>layers = [a]\<rparr>"] by simp
  have lastl: "last (layers ?t1) = ?b"
    using kpos by simp
  have "?h1 ! ?b = ?U ! (?k - 1)"
    using nth_append_length_plus[of "h[a := evenPad xs]" ?U "?k - 1"] by simp
  then have hb: "?h1 ! ?b = [r]"
    using r by (simp add: last_conv_nth)
  have pl: "padLoop P (int ?k) ?t1 ?h1 =
       Inr (?t1\<lparr>layers := layers ?t1 @ [length ?h1 ..< length ?h1 + ?n]\<rparr>,
            ?h1[?b := hd ?Pd] @ tl ?Pd)"
    using kpos by (intro padLoop_eq[OF _ lastl _ hb]) simp_all
  have ab: "aboveLeaves P xs = butlast ?U @ ?Pd"
    by (simp add: aboveLeaves_def r)
  have heap: "?h1[?b := hd ?Pd] @ tl ?Pd = h[a := evenPad xs] @ aboveLeaves P xs"
  proof -
    have "?U = butlast ?U @ [last ?U]" by simp
    then have "?h1[?b := hd ?Pd] = h[a := evenPad xs] @ butlast ?U @ [hd ?Pd]"
      using kpos
      by (metis (no_types, lifting) append_assoc length_append length_butlast
          length_list_update list_update_length)
    then show ?thesis by (simp add: ab)
  qed
  have lab: "length (aboveLeaves P xs) = ?k + ?n"
    using kpos by (simp add: ab)
  have split: "[length h ..< length h + ?k + ?n]
                 = [length h ..< length h + ?k] @ [length h + ?k ..< length h + ?k + ?n]"
    by (rule upt_add_eq_append) simp
  have lh1: "length ?h1 = length h + ?k"
    by simp
  have lay: "layers ?t1 @ [length ?h1 ..< length ?h1 + ?n] = a # [length h ..< length h + length (aboveLeaves P xs)]"
    unfolding lh1 lab by (simp only: split add.assoc[symmetric] Tree.simps append_Cons)
  have lastab: "last (aboveLeaves P xs) = last ?Pd"
    by (simp add: ab)
  let ?A = "aboveLeaves P xs"
  let ?L = "a # [length h ..< length h + length ?A]"
  let ?H = "h[a := evenPad xs] @ ?A"
  have idx0: "int (length (layers ?t1)) - 1 = int ?k"
    by simp
  have upd: "?t1\<lparr>layers := ?L\<rparr> = \<lparr>layers = ?L\<rparr>"
    by simp
  have pt: "padTree P ?t1 ?h1 =
              Inr (\<lparr>tree = \<lparr>layers = ?L\<rparr>, root = elemAt (arr ?H (last ?L)) 0\<rparr>, ?H)"
    unfolding padTree_def idx0 pl heap lay upd by simp
  have Ane: "?A \<noteq> []"
    by (simp add: ab)
  then obtain m where "length ?A = Suc m"
    by (cases ?A) auto
  then have lastL: "last ?L = length h + (length ?A - 1)"
    by simp
  have "?H ! (length h + (length ?A - 1)) = ?A ! (length ?A - 1)"
    using nth_append_length_plus[of "h[a := evenPad xs]" ?A "length ?A - 1"] by simp
  then have "arr ?H (last ?L) = last ?A"
    using Ane unfolding lastL by (simp add: arr_def last_conv_nth)
  moreover have "last ?A \<noteq> []"
    using last_padFrom[of P r ?n] by (auto simp: lastab)
  ultimately have rootv: "elemAt (arr ?H (last ?L)) 0 = Some (hd (last ?A))"
    by (simp add: elemAt_def hd_conv_nth)
  have pt': "padTree P ?t1 ?h1 =
               Inr (\<lparr>tree = \<lparr>layers = ?L\<rparr>, root = Some (hd (last ?A))\<rparr>, ?H)"
    using pt by (simp only: rootv)
  show ?thesis
    unfolding generateMerkleTree_def gmr by (simp only: pt' sum.case prod.case)
qed

section \<open>The verifier as a fold\<close>

lemma foldl_foldStep_Inl: "foldl (foldStep P) (Inl e) es = Inl e"
  by (induction es) simp_all

lemma rootLoop_foldl:
  "rootLoop P p i acc = foldl (foldStep P) (Inr acc) (drop i p)"
proof (induction P p i acc rule: rootLoop.induct)
  case (1 P p i acc)
  show ?case
  proof (cases "i < length p")
    case False
    then show ?thesis by (simp add: rootLoop.simps[of P p i])
  next
    case True
    then have d: "drop i p = p ! i # drop (i + 1) p"
      by (simp add: Cons_nth_drop_Suc)
    show ?thesis
    proof (cases "direction (p ! i)")
      case RIGHT
      show ?thesis
      proof (cases "hashLeaves P acc (hash (p ! i))")
        case (Inl e)
        with True RIGHT d show ?thesis
          by (simp add: rootLoop.simps[of P p i] foldl_foldStep_Inl)
      next
        case (Inr v)
        with True RIGHT d "1.IH"[OF True refl, of v] show ?thesis
          by (simp add: rootLoop.simps[of P p i])
      qed
    next
      case LEFT
      show ?thesis
      proof (cases "hashLeaves P (hash (p ! i)) acc")
        case (Inl e)
        with True LEFT d show ?thesis
          by (simp add: rootLoop.simps[of P p i] foldl_foldStep_Inl)
      next
        case (Inr v)
        with True LEFT d "1.IH"[OF True refl, of v] show ?thesis
          by (simp add: rootLoop.simps[of P p i])
      qed
    qed
  qed
qed

lemma getMerkleRootFromMerkleProof_Cons:
  "getMerkleRootFromMerkleProof P (e # rest) = foldl (foldStep P) (Inr (hash e)) rest"
  by (simp add: getMerkleRootFromMerkleProof_def rootLoop_foldl)

text \<open>
  Claim C6.  For every proof of at least one entry, \<^verbatim>\<open>getMerkleRootFromMerkleProof\<close>
  returns the left fold over the entries 1, 2, ... in order that starts from the hash of
  entry 0 and hashes the accumulator on the left of an entry of direction RIGHT and on the
  right of an entry of direction LEFT.
\<close>

theorem verifier_is_left_fold:
  "p \<noteq> [] \<Longrightarrow> getMerkleRootFromMerkleProof P p = verifierFold P p"
  by (cases p) (simp_all add: getMerkleRootFromMerkleProof_Cons verifierFold_def)

theorem verifier_is_left_fold_witness:
  "[\<lparr>hash = Some 2, direction = RIGHT\<rparr>, \<lparr>hash = Some 1, direction = LEFT\<rparr>,
    \<lparr>hash = Some 6, direction = RIGHT\<rparr>] \<noteq> []
   \<and> getMerkleRootFromMerkleProof sumHash
         [\<lparr>hash = Some 2, direction = RIGHT\<rparr>, \<lparr>hash = Some 1, direction = LEFT\<rparr>,
          \<lparr>hash = Some 6, direction = RIGHT\<rparr>] = Inr (Some 9)"
  using verifier_is_left_fold[of "[\<lparr>hash = Some 2, direction = RIGHT\<rparr>,
      \<lparr>hash = Some 1, direction = LEFT\<rparr>, \<lparr>hash = Some 6, direction = RIGHT\<rparr>]" sumHash]
  by (simp add: verifierFold_def hashLeaves_def sumHash_def)

text \<open>
  Claim C8.  The direction stored in entry 0 of a proof is never read by the verifier:
  putting any direction \<open>d\<close> into entry 0 leaves the result of
  \<^verbatim>\<open>getMerkleRootFromMerkleProof\<close> unchanged.
\<close>

theorem leaf_direction_not_consulted:
  "getMerkleRootFromMerkleProof P (e\<lparr>direction := d\<rparr> # rest) =
   getMerkleRootFromMerkleProof P (e # rest)"
  by (simp add: getMerkleRootFromMerkleProof_Cons)

text \<open>
  Claim C10.  \<^verbatim>\<open>generateMerkleProof(0n, leaves, cachedTree)\<close> returns \<^verbatim>\<open>null\<close> and leaves
  the store as it was, whatever the leaves and the cached tree are; so also when the leaves
  are not empty and contain 0.
\<close>

theorem zero_leaf_yields_null:
  "generateMerkleProof P 0 leaves cachedTree h = Inr (None, h)"
  by (simp add: generateMerkleProof_def)

section \<open>The sibling path and the chain of layers\<close>

lemma jsRem_2_eq_0 [simp]: "jsRem i 2 = 0 \<longleftrightarrow> even i"
  by (auto simp: jsRem_def sgn_if)

lemma length_siblings [simp]: "length (siblings ls i) = length ls - 1"
  by (induction ls i rule: siblings.induct) simp_all

lemma siblings_short: "length ls \<le> 1 \<Longrightarrow> siblings ls i = []"
  by (induction ls i rule: siblings.induct) simp_all

lemma proofLoop_siblings:
  "proofLoop ls h level i acc = acc @ siblings (drop level (map (arr h) ls)) i"
proof (induction ls h level i acc rule: proofLoop.induct)
  case (1 ls h level i acc)
  show ?case
  proof (cases "int level < int (length ls) - 1")
    case False
    then have "length (drop level (map (arr h) ls)) \<le> 1" by simp
    then have "siblings (drop level (map (arr h) ls)) i = []"
      by (rule siblings_short)
    with False show ?thesis
      by (simp add: proofLoop.simps[of ls h level])
  next
    case True
    then have lt: "Suc level < length ls" by simp
    then have d: "drop level (map (arr h) ls)
                   = arr h (ls ! level) # arr h (ls ! Suc level) # drop (Suc (Suc level)) (map (arr h) ls)"
      by (simp add: Cons_nth_drop_Suc[symmetric])
    have d1: "drop (Suc level) (map (arr h) ls)
                   = arr h (ls ! Suc level) # drop (Suc (Suc level)) (map (arr h) ls)"
      using lt by (simp add: Cons_nth_drop_Suc[symmetric])
    show ?thesis
      using True "1.IH"[OF True refl refl refl refl]
      by (simp add: proofLoop.simps[of ls h level] d d1 Let_def)
  qed
qed

lemma pairUp_nth:
  "k < length xs div 2 \<Longrightarrow> pairUp P xs ! k = P (xs ! (2 * k)) (xs ! (2 * k + 1))"
proof (induction P xs arbitrary: k rule: pairUp.induct)
  case (1 P x y rest)
  then show ?case by (cases k) simp_all
qed simp_all

lemma findIndex_in:
  "x \<in> set xs \<Longrightarrow>
     0 \<le> findIndex xs x \<and> findIndex xs x < int (length xs) \<and> xs ! nat (findIndex xs x) = x"
proof (induction xs)
  case Nil
  then show ?case by simp
next
  case (Cons y ys)
  show ?case
  proof (cases "y = x")
    case True
    then show ?thesis by simp
  next
    case False
    with Cons.prems have "x \<in> set ys" by simp
    from Cons.IH[OF this] False show ?thesis
      by (simp add: Let_def nat_add_distrib)
  qed
qed

lemma findIndex_notin: "x \<notin> set xs \<Longrightarrow> findIndex xs x = - 1"
  by (induction xs) (simp_all add: Let_def)

lemma chained_padFrom: "chained P (padFrom P r n)"
proof (induction n arbitrary: r)
  case 0
  show ?case by simp
next
  case (Suc n)
  from Suc[of "P r r"] show ?case
    by (cases n) simp_all
qed

lemma chained_append_padFrom:
  "chained P (ys @ [[r]]) \<Longrightarrow> chained P (ys @ padFrom P r n)"
proof (induction ys rule: induct_list012)
  case 1
  show ?case by (simp add: chained_padFrom)
next
  case (2 l)
  then have l: "l \<noteq> []" "even (length l)" and tk: "take (length l div 2) [r] = pairUp P l"
    by simp_all
  from l have "1 \<le> length l div 2"
    by (cases l) (auto elim!: evenE)
  moreover have "length l div 2 \<le> 1"
    using arg_cong[OF tk, of length] by (simp add: length_pairUp)
  ultimately have one: "length l div 2 = 1" by simp
  with tk have pu: "pairUp P l = [r]" by simp
  show ?case
    using l one pu chained_padFrom[of P r n]
    by (cases n) simp_all
next
  case (3 l l' rest)
  then show ?case by simp
qed

lemma chained_upper:
  "xs \<noteq> [] \<Longrightarrow> chained P (evenPad xs # upper P xs)"
proof (induction P xs rule: upper.induct)
  case (1 P xs)
  let ?c = "pairUp P (evenPad xs)"
  have cpos: "length ?c \<noteq> 0"
    using "1.prems" by (simp add: pairUp_evenPad_pos length_pairUp)
  have e: "evenPad xs \<noteq> []" "even (length (evenPad xs))"
    using "1.prems" by simp_all
  show ?case
  proof (cases "length ?c \<le> 1")
    case True
    with cpos have "length ?c = 1" by linarith
    with True e show ?thesis
      by (simp add: upper.simps[of P xs] length_pairUp)
  next
    case False
    with cpos have "?c \<noteq> []" by auto
    with False "1.IH" have ih: "chained P (evenPad ?c # upper P ?c)"
      by simp
    have "take (length ?c) (evenPad ?c) = ?c"
      by (simp add: evenPad_def)
    then have "take (length (evenPad xs) div 2) (evenPad ?c) = ?c"
      by (simp add: length_pairUp)
    with False e ih show ?thesis
      by (simp add: upper.simps[of P xs])
  qed
qed

lemma chained_tree:
  assumes "xs \<noteq> []"
  shows "chained P (evenPad xs # aboveLeaves P xs)"
proof -
  obtain r where r: "last (upper P xs) = [r]"
    using last_upper[OF assms, of P] by (cases "last (upper P xs)") auto
  have "upper P xs = butlast (upper P xs) @ [[r]]"
    using r append_butlast_last_id[OF upper_not_Nil, of P xs] by simp
  then have "chained P ((evenPad xs # butlast (upper P xs)) @ [[r]])"
    using chained_upper[OF assms, of P] by simp
  from chained_append_padFrom[OF this] show ?thesis
    by (simp add: aboveLeaves_def r)
qed

lemma fold_siblings:
  "chained P ls \<Longrightarrow> 0 \<le> i \<Longrightarrow> i < int (length (hd ls)) \<Longrightarrow>
     foldl (foldStep P) (Inr (Some (hd ls ! nat i))) (siblings ls i) = Inr (Some (hd (last ls)))"
proof (induction P ls arbitrary: i rule: chained.induct)
  case (1 P l l' rest)
  define j where "j = nat i"
  from "1.prems" have i: "i = int j" and j: "j < length l"
    by (simp_all add: j_def)
  from "1.prems" have ev: "even (length l)"
    and tk: "take (length l div 2) l' = pairUp P l"
    and ch: "chained P (l' # rest)"
    by simp_all
  have jh: "j div 2 < length l div 2"
    using j ev by (auto elim!: evenE)
  have len': "length l div 2 \<le> length l'"
    using arg_cong[OF tk, of length] by (simp add: length_pairUp)
  have nth': "l' ! (j div 2) = P (l ! (2 * (j div 2))) (l ! (2 * (j div 2) + 1))"
    using nth_take[OF jh, of l'] pairUp_nth[OF jh, of P] by (simp add: tk)
  have idiv: "i div 2 = int (j div 2)"
    by (simp add: i zdiv_int)
  have ih: "foldl (foldStep P) (Inr (Some (l' ! (j div 2)))) (siblings (l' # rest) (i div 2))
              = Inr (Some (hd (last (l' # rest))))"
    using "1.IH"[OF ch, of "i div 2"] jh len' by (simp add: idiv)
  show ?case
  proof (cases "even j")
    case True
    then have s: "Suc j < length l"
      using j ev by (auto elim!: evenE)
    have "2 * (j div 2) = j" using True by simp
    with nth' have "l' ! (j div 2) = P (l ! j) (l ! Suc j)" by simp
    with True s j ih show ?thesis
      by (simp add: i hashLeaves_def)
  next
    case False
    then have jpos: "0 < j" by (cases j) auto
    have "2 * (j div 2) + 1 = j" using False by presburger
    moreover have "2 * (j div 2) = j - 1" using False by presburger
    ultimately have "l' ! (j div 2) = P (l ! (j - 1)) (l ! j)"
      using nth' by simp
    moreover have "elemAt l (int j - 1) = Some (l ! (j - 1))"
      using jpos j by (simp add: elemAt_def nat_diff_distrib')
    ultimately show ?thesis
      using False j ih by (simp add: i hashLeaves_def)
  qed
next
  case (2 P l)
  then have "i = 0" and "length l = 1" by simp_all
  then show ?case by (cases l) simp_all
next
  case (3 P)
  then show ?case by simp
qed

section \<open>Round trip\<close>

lemma map_arr_layers:
  "a < length h \<Longrightarrow>
     map (arr (h[a := E] @ A)) (a # [length h ..< length h + length A]) = E # A"
proof -
  assume a: "a < length h"
  have "map (arr (h[a := E] @ A)) [length h ..< length h + length A] = A"
    by (rule nth_equalityI) (simp_all add: arr_def nth_append)
  with a show ?thesis
    by (simp add: arr_def nth_append)
qed

lemma evenPad_idem [simp]: "evenPad (evenPad xs) = evenPad xs"
  using even_length_evenPad[of xs] by (simp add: evenPad_def[of "evenPad xs"])

lemma set_evenPad [simp]: "set (evenPad xs) = set xs"
  by (cases "xs = []") (auto simp: evenPad_def)

lemma upper_evenPad: "upper P (evenPad xs) = upper P xs"
  by (simp add: upper.simps[of P "evenPad xs"] upper.simps[of P xs])

lemma aboveLeaves_evenPad: "aboveLeaves P (evenPad xs) = aboveLeaves P xs"
  by (simp add: aboveLeaves_def upper_evenPad)

lemma aboveLeaves_not_Nil [simp]: "aboveLeaves P xs \<noteq> []"
  by (simp add: aboveLeaves_def)

lemma generateMerkleProof_eq:
  assumes a: "a < length h" and xs: "h ! a = xs" and ne: "xs \<noteq> []" and x: "x \<noteq> 0"
  shows "generateMerkleProof P x a None h =
           Inr (Some (\<lparr>hash = Some x,
                        direction = (if even (findIndex (evenPad xs) x) then LEFT else RIGHT)\<rparr>
                      # siblings (evenPad xs # aboveLeaves P xs) (findIndex (evenPad xs) x)),
                h[a := evenPad xs] @ aboveLeaves P xs)"
proof -
  let ?A = "aboveLeaves P xs"
  let ?L = "a # [length h ..< length h + length ?A]"
  let ?H = "h[a := evenPad xs] @ ?A"
  have l0: "arr ?H a = evenPad xs"
    using a by (simp add: arr_def nth_append)
  have g: "length (arr h a) \<noteq> 0"
    using a xs ne by (simp add: arr_def)
  have dir: "getLeafNodeDirectionInMerkleTree x ?L ?H
               = Inr (if even (findIndex (evenPad xs) x) then LEFT else RIGHT)"
    by (simp add: getLeafNodeDirectionInMerkleTree_def l0)
  have pl: "proofLoop ?L ?H 0 i acc = acc @ siblings (evenPad xs # ?A) i" for i acc
    by (simp only: proofLoop_siblings drop_0 map_arr_layers[OF a])
  show ?thesis
    using x g
    by (simp add: generateMerkleProof_def generateMerkleTree_eq[OF a xs ne] dir l0 pl
        del: upt_Suc)
qed

lemma root_of_generated_proof:
  assumes a: "a < length h" and xs: "h ! a = xs" and x: "x \<noteq> 0" and mem: "x \<in> set xs"
  shows "rootOfGeneratedProof P (generateMerkleProof P x a None h)
           = Inr (Some (hd (last (aboveLeaves P xs))))"
proof -
  from mem have ne: "xs \<noteq> []" by auto
  let ?i = "findIndex (evenPad xs) x"
  have m: "x \<in> set (evenPad xs)" using mem by simp
  have i: "0 \<le> ?i" "?i < int (length (evenPad xs))" "evenPad xs ! nat ?i = x"
    using findIndex_in[OF m] by simp_all
  have "foldl (foldStep P) (Inr (Some (hd (evenPad xs # aboveLeaves P xs) ! nat ?i)))
          (siblings (evenPad xs # aboveLeaves P xs) ?i)
        = Inr (Some (hd (last (evenPad xs # aboveLeaves P xs))))"
    using i by (intro fold_siblings chained_tree[OF ne]) simp_all
  then show ?thesis
    using i
    by (simp add: rootOfGeneratedProof_def generateMerkleProof_eq[OF a xs ne x]
        getMerkleRootFromMerkleProof_Cons)
qed

lemma root_of_built_tree:
  assumes "a < length h" and "h ! a = xs" and "xs \<noteq> []"
  shows "rootOfBuiltTree (generateMerkleTree P a h) = Inr (Some (hd (last (aboveLeaves P xs))))"
  by (simp add: rootOfBuiltTree_def generateMerkleTree_eq[OF assms])

text \<open>
  The round trip for every leaf but 0.  For every array of leaves and every leaf \<open>x\<close> in
  it other than 0, \<^verbatim>\<open>generateMerkleProof(x, leaves, null)\<close> returns a proof, and
  \<^verbatim>\<open>getMerkleRootFromMerkleProof\<close> of that proof is the root of the tree that
  \<^verbatim>\<open>generateMerkleTree(leaves)\<close> builds, whether the tree is built from the leaves as they
  were before the proof was generated or as they are after it.
\<close>

theorem round_trip_membership:
  assumes "a < length h" and "x \<in> set (h ! a)" and "x \<noteq> 0"
  shows "\<exists>p h' r. generateMerkleProof P x a None h = Inr (Some p, h')
           \<and> getMerkleRootFromMerkleProof P p = Inr (Some r)
           \<and> rootOfBuiltTree (generateMerkleTree P a h) = Inr (Some r)
           \<and> rootOfBuiltTree (generateMerkleTree P a h') = Inr (Some r)"
proof -
  let ?xs = "h ! a"
  from assms(2) have ne: "?xs \<noteq> []" by auto
  let ?h' = "h[a := evenPad ?xs] @ aboveLeaves P ?xs"
  have a': "a < length ?h'" and xs': "?h' ! a = evenPad ?xs" and ne': "evenPad ?xs \<noteq> []"
    using assms(1) ne by (simp_all add: nth_append)
  have g: "generateMerkleProof P x a None h = Inr (Some
              (\<lparr>hash = Some x,
                 direction = (if even (findIndex (evenPad ?xs) x) then LEFT else RIGHT)\<rparr>
               # siblings (evenPad ?xs # aboveLeaves P ?xs) (findIndex (evenPad ?xs) x)), ?h')"
    by (rule generateMerkleProof_eq[OF assms(1) refl ne assms(3)])
  have r1: "rootOfGeneratedProof P (generateMerkleProof P x a None h)
              = Inr (Some (hd (last (aboveLeaves P ?xs))))"
    by (rule root_of_generated_proof[OF assms(1) refl assms(3) assms(2)])
  have r2: "rootOfBuiltTree (generateMerkleTree P a h) = Inr (Some (hd (last (aboveLeaves P ?xs))))"
    by (rule root_of_built_tree[OF assms(1) refl ne])
  have r3: "rootOfBuiltTree (generateMerkleTree P a ?h') = Inr (Some (hd (last (aboveLeaves P ?xs))))"
    using root_of_built_tree[OF a' xs' ne', of P] by (simp only: aboveLeaves_evenPad)
  from r1 have r1': "getMerkleRootFromMerkleProof P
              (\<lparr>hash = Some x,
                 direction = (if even (findIndex (evenPad ?xs) x) then LEFT else RIGHT)\<rparr>
               # siblings (evenPad ?xs # aboveLeaves P ?xs) (findIndex (evenPad ?xs) x))
              = Inr (Some (hd (last (aboveLeaves P ?xs))))"
    by (simp add: g rootOfGeneratedProof_def)
  from g r1' r2 r3 show ?thesis by blast
qed

theorem round_trip_membership_witness:
  "(0::nat) < length [[1, 2, 3::int]] \<and> (2::int) \<in> set ([[1, 2, 3]] ! 0) \<and> (2::int) \<noteq> 0
   \<and> (\<exists>p h' r. generateMerkleProof sumHash 2 0 None [[1, 2, 3]] = Inr (Some p, h')
           \<and> getMerkleRootFromMerkleProof sumHash p = Inr (Some r)
           \<and> rootOfBuiltTree (generateMerkleTree sumHash 0 [[1, 2, 3]]) = Inr (Some r)
           \<and> rootOfBuiltTree (generateMerkleTree sumHash 0 h') = Inr (Some r))"
  using round_trip_membership[of 0 "[[1, 2, 3]]" 2 sumHash] by simp

text \<open>
  Claim C1 at the leaves \<open>[0, 7]\<close> and the leaf 0.  The claim asks that the root folded from
  the generated proof is the root of the built tree.  The tree has a root, and the leaf 7
  gets a proof that folds to it, with the leaf 0 as its first sibling; but for the leaf 0 the
  guard \<^verbatim>\<open>!leaf\<close> makes the generator return \<^verbatim>\<open>null\<close>, on which the verifier
  throws.
\<close>

theorem zero_leaf_round_trip_throws:
  "rootOfGeneratedProof sumHash (generateMerkleProof sumHash 0 0 None [[0, 7]]) = Inl TypeError
   \<and> generatedProof (generateMerkleProof sumHash 0 0 None [[0, 7]]) = Inr None
   \<and> rootOfBuiltTree (generateMerkleTree sumHash 0 [[0, 7]]) = Inr (Some 1835008)
   \<and> rootOfGeneratedProof sumHash (generateMerkleProof sumHash 7 0 None [[0, 7]])
         = Inr (Some 1835008)"
  by code_simp

section \<open>The number of layers\<close>

lemma length_pairUp_evenPad: "length (pairUp P (evenPad xs)) = (length xs + 1) div 2"
  by (simp add: length_pairUp evenPad_def) presburger

lemma length_upper_le:
  "xs \<noteq> [] \<Longrightarrow> length xs \<le> 2 ^ n \<Longrightarrow> 0 < n \<Longrightarrow> length (upper P xs) \<le> n"
proof (induction n arbitrary: xs)
  case 0
  then show ?case by simp
next
  case (Suc n)
  let ?c = "pairUp P (evenPad xs)"
  show ?case
  proof (cases "length ?c \<le> 1")
    case True
    then show ?thesis by (simp add: upper.simps[of P xs])
  next
    case False
    then have u: "upper P xs = evenPad ?c # upper P ?c"
      by (simp add: upper.simps[of P xs])
    have "length xs \<le> 2 * 2 ^ n" using Suc.prems by simp
    then have le: "length ?c \<le> 2 ^ n"
      unfolding length_pairUp_evenPad by linarith
    with False have "0 < n" by (cases n) auto
    moreover from False have "?c \<noteq> []" by auto
    ultimately have "length (upper P ?c) \<le> n"
      using le by (intro Suc.IH)
    then show ?thesis by (simp add: u)
  qed
qed

lemma length_upper_gt:
  "2 ^ n < length xs \<Longrightarrow> n < length (upper P xs)"
proof (induction n arbitrary: xs)
  case 0
  show ?case using upper_length_pos[of P xs] by simp
next
  case (Suc n)
  let ?c = "pairUp P (evenPad xs)"
  have "2 * 2 ^ n < length xs" using Suc.prems by simp
  then have gt: "2 ^ n < length ?c"
    unfolding length_pairUp_evenPad by linarith
  moreover have "(1::nat) \<le> 2 ^ n" by simp
  ultimately have "\<not> length ?c \<le> 1" by linarith
  then have u: "upper P xs = evenPad ?c # upper P ?c"
    by (simp add: upper.simps[of P xs])
  from Suc.IH[OF gt] show ?case by (simp add: u)
qed

lemma length_aboveLeaves:
  "length (aboveLeaves P xs) = length (upper P xs) + (19 - length (upper P xs))"
  using upper_length_pos[of P xs] by (simp add: aboveLeaves_def)

lemma length_aboveLeaves_small:
  assumes "xs \<noteq> []" and "length xs \<le> 524288"
  shows "length (aboveLeaves P xs) = 19"
proof -
  have "length xs \<le> 2 ^ 19" using assms(2) by simp
  from length_upper_le[OF assms(1) this, of P] show ?thesis
    by (simp add: length_aboveLeaves)
qed

lemma length_aboveLeaves_large:
  assumes "length xs = 524289"
  shows "length (aboveLeaves P xs) = 20"
proof -
  have ne: "xs \<noteq> []" using assms by auto
  have "2 ^ 19 < length xs" and "length xs \<le> 2 ^ 20"
    using assms by simp_all
  from length_upper_gt[OF this(1), of P] length_upper_le[OF ne this(2), of P]
  have "length (upper P xs) = 20" by simp
  then show ?thesis by (simp add: length_aboveLeaves)
qed

lemma proofLength_eq:
  assumes "a < length h" and "h ! a = xs" and "xs \<noteq> []" and "x \<noteq> 0"
  shows "proofLength (generateMerkleProof P x a None h) = Inr (Some (Suc (length (aboveLeaves P xs))))"
  by (simp add: proofLength_def generateMerkleProof_eq[OF assms])

lemma layerCount_eq:
  assumes "a < length h" and "h ! a = xs" and "xs \<noteq> []"
  shows "layerCount (generateMerkleTree P a h) = Inr (Suc (length (aboveLeaves P xs)))"
  by (simp add: layerCount_def generateMerkleTree_eq[OF assms] del: upt_Suc)

text \<open>
  Claim C4, amended.  For every array of at most \<open>2^19 = 524288\<close> leaves and every leaf
  \<open>x\<close> in it other than 0, \<^verbatim>\<open>generateMerkleProof(x, leaves, null)\<close> returns a proof of
  exactly \<^verbatim>\<open>TREELEVELS\<close> = 20 entries, whatever the number of leaves within that bound.
\<close>

theorem fixed_proof_length:
  assumes "a < length h" and "x \<in> set (h ! a)" and "x \<noteq> 0" and "length (h ! a) \<le> 524288"
  shows "\<exists>p h'. generateMerkleProof P x a None h = Inr (Some p, h') \<and> int (length p) = TREELEVELS"
proof -
  from assms(2) have ne: "h ! a \<noteq> []" by auto
  show ?thesis
    by (simp add: generateMerkleProof_eq[OF assms(1) refl ne assms(3)]
        length_aboveLeaves_small[OF ne assms(4)] TREELEVELS_def)
qed

theorem fixed_proof_length_witness:
  "(0::nat) < length [[1, 2, 3::int]] \<and> (2::int) \<in> set ([[1, 2, 3]] ! 0) \<and> (2::int) \<noteq> 0
   \<and> length ([[1, 2, 3::int]] ! 0) \<le> 524288
   \<and> (\<exists>p h'. generateMerkleProof sumHash 2 0 None [[1, 2, 3]] = Inr (Some p, h')
         \<and> int (length p) = TREELEVELS)"
  using fixed_proof_length[of 0 "[[1, 2, 3]]" 2 sumHash] by simp

text \<open>
  As stated, claim C4 fails in two ways: for the leaf 0 no proof is returned at all, and for
  524289 leaves the tree has 21 layers, so the proof has 21 entries.
\<close>

theorem fixed_proof_length_counterexample:
  "proofLength (generateMerkleProof sumHash 0 0 None [[0]]) = Inr None
   \<and> proofLength (generateMerkleProof sumHash 1 0 None [replicate 524289 1]) = Inr (Some 21)"
proof
  show "proofLength (generateMerkleProof sumHash 0 0 None [[0]]) = Inr None"
    by (simp add: generateMerkleProof_def proofLength_def)
next
  have "length (replicate 524289 (1::int)) = 524289"
    by (rule length_replicate)
  then have l: "length (aboveLeaves sumHash (replicate 524289 1)) = 20"
    by (rule length_aboveLeaves_large)
  have ne: "replicate 524289 (1::int) \<noteq> []"
    by (simp only: replicate_empty)
  have "proofLength (generateMerkleProof sumHash 1 0 None [replicate 524289 1])
          = Inr (Some (Suc (length (aboveLeaves sumHash (replicate 524289 1)))))"
    by (rule proofLength_eq[OF _ _ ne]) simp_all
  then show "proofLength (generateMerkleProof sumHash 1 0 None [replicate 524289 1]) = Inr (Some 21)"
    by (simp only: l) simp
qed

lemma padFrom_nth:
  "m < n \<Longrightarrow> \<exists>w. padFrom P r n ! m = [w, w] \<and> padFrom P r n ! Suc m ! 0 = P w w"
proof (induction n arbitrary: r m)
  case 0
  then show ?case by simp
next
  case (Suc n)
  show ?case
  proof (cases m)
    case 0
    then show ?thesis by (cases n) simp_all
  next
    case (Suc m')
    with Suc.prems have "m' < n" by simp
    from Suc.IH[OF this, of "P r r"] Suc show ?thesis by simp
  qed
qed

text \<open>
  Claim C3, amended.  For every non-empty array of at most \<open>2^19 = 524288\<close> leaves,
  \<^verbatim>\<open>generateMerkleTree\<close> returns a tree of exactly \<^verbatim>\<open>TREELEVELS\<close> = 20 layers.
  Layer 0 is the caller's array, as \<^verbatim>\<open>ensureEven\<close> leaves it; the last layer holds one
  element, the root.  The layers that \<^verbatim>\<open>generateMerkleRoot\<close> builds come first, and
  every layer \<open>j\<close> after them starts with \<open>P w w\<close>, where layer \<open>j - 1\<close> is \<open>[w, w]\<close>:
  the root of the layer below, duplicated and hashed with itself.
\<close>

theorem tree_has_fixed_depth:
  assumes "a < length h" and "h ! a \<noteq> []" and "length (h ! a) \<le> 524288"
  shows "\<exists>r h' v ra t1 h1.
           generateMerkleTree P a h = Inr (r, h')
         \<and> int (length (layers (tree r))) = TREELEVELS
         \<and> layers (tree r) ! 0 = a
         \<and> arr h' a = arr (ensureEven a h) a
         \<and> root r = Some v
         \<and> arr h' (last (layers (tree r))) = [v]
         \<and> generateMerkleRoot P a \<lparr>layers = [a]\<rparr> h = Inr (ra, t1, h1)
         \<and> take (length (layers t1)) (layers (tree r)) = layers t1
         \<and> (\<forall>j. length (layers t1) \<le> j \<and> int j < TREELEVELS \<longrightarrow>
               (\<exists>w. arr h' (layers (tree r) ! (j - 1)) = [w, w]
                  \<and> arr h' (layers (tree r) ! j) ! 0 = P w w))"
proof -
  let ?xs = "h ! a"
  let ?U = "upper P ?xs"
  let ?k = "length ?U"
  let ?A = "aboveLeaves P ?xs"
  let ?L = "a # [length h ..< length h + length ?A]"
  let ?H = "h[a := evenPad ?xs] @ ?A"
  let ?t1 = "\<lparr>layers = a # [length h ..< length h + ?k]\<rparr>"
  obtain r0 where r0: "last ?U = [r0]"
    using last_upper[OF assms(2), of P] by (cases "last ?U") auto
  let ?Pd = "padFrom P r0 (19 - ?k)"
  have A: "?A = butlast ?U @ ?Pd"
    by (simp add: aboveLeaves_def r0)
  have lenA: "length ?A = 19"
    by (rule length_aboveLeaves_small[OF assms(2,3)])
  have kpos: "Suc 0 \<le> ?k"
    by (rule upper_length_pos)
  have k19: "?k \<le> 19"
    using lenA by (simp add: length_aboveLeaves)
  have contents: "map (arr ?H) ?L = evenPad ?xs # ?A"
    by (rule map_arr_layers[OF assms(1)])
  have nthL: "arr ?H (?L ! j) = (evenPad ?xs # ?A) ! j" if "j < 20" for j
  proof -
    from that have "j < length ?L" by (simp add: lenA)
    then have "map (arr ?H) ?L ! j = arr ?H (?L ! j)"
      by (rule nth_map)
    then show ?thesis by (simp only: contents)
  qed
  have gmt: "generateMerkleTree P a h
               = Inr (\<lparr>tree = \<lparr>layers = ?L\<rparr>, root = Some (hd (last ?A))\<rparr>, ?H)"
    by (rule generateMerkleTree_eq[OF assms(1) refl assms(2)])
  have gmr: "generateMerkleRoot P a \<lparr>layers = [a]\<rparr> h
               = Inr (length h + ?k - 1, ?t1, h[a := evenPad ?xs] @ ?U)"
    using generateMerkleRoot_eq[OF assms(1) refl assms(2), of P "\<lparr>layers = [a]\<rparr>"] by simp
  have c1: "int (length ?L) = TREELEVELS"
    by (simp add: lenA TREELEVELS_def)
  have c2: "?L ! 0 = a" by simp
  have c3: "arr ?H a = arr (ensureEven a h) a"
    using assms(1) by (simp add: arr_def nth_append ensureEven_eq)
  have lastA: "last ?A = last ?Pd"
    by (simp add: A)
  obtain v where v: "last ?A = [v]"
    using last_padFrom[of P r0 "19 - ?k"] unfolding lastA[symmetric]
    by (cases "last ?A") auto
  have c4: "Some (hd (last ?A)) = Some v"
    by (simp add: v)
  have "arr ?H (?L ! 19) = (evenPad ?xs # ?A) ! 19"
    by (rule nthL) simp
  moreover have "last ?L = ?L ! 19"
    by (simp add: lenA last_conv_nth del: upt_Suc)
  moreover have "(evenPad ?xs # ?A) ! 19 = last ?A"
    using lenA by (simp add: last_conv_nth)
  ultimately have c5: "arr ?H (last ?L) = [v]"
    by (simp only: v)
  have c6: "take (length (layers ?t1)) ?L = layers ?t1"
    using k19 by (simp add: lenA take_upt del: upt_Suc)
  have c7: "\<exists>w. arr ?H (?L ! (j - 1)) = [w, w] \<and> arr ?H (?L ! j) ! 0 = P w w"
    if j: "length (layers ?t1) \<le> j \<and> int j < TREELEVELS" for j
  proof -
    from j have jlo: "Suc ?k \<le> j" and jhi: "j < 20"
      by (simp_all add: TREELEVELS_def)
    define pre where "pre = evenPad ?xs # butlast ?U"
    have split: "evenPad ?xs # ?A = pre @ ?Pd"
      by (simp add: A pre_def)
    have lenpre: "length pre = ?k"
      using kpos by (simp add: pre_def)
    have jk: "j - ?k = Suc (j - 1 - ?k)"
      using jlo by linarith
    have nlt1: "\<not> j - 1 < ?k" and nlt2: "\<not> j < ?k"
      using jlo by linarith+
    have n1: "(evenPad ?xs # ?A) ! (j - 1) = ?Pd ! (j - 1 - ?k)"
      unfolding split by (simp only: nth_append lenpre nlt1 if_False)
    have n2: "(evenPad ?xs # ?A) ! j = ?Pd ! Suc (j - 1 - ?k)"
      unfolding split by (simp only: nth_append lenpre nlt2 if_False jk)
    have "j - 1 - ?k < 19 - ?k"
      using jlo jhi by linarith
    from padFrom_nth[OF this, of P r0] obtain w where
      "?Pd ! (j - 1 - ?k) = [w, w]" and "?Pd ! Suc (j - 1 - ?k) ! 0 = P w w"
      by blast
    moreover have "arr ?H (?L ! (j - 1)) = (evenPad ?xs # ?A) ! (j - 1)"
      using jhi by (intro nthL) simp
    moreover have "arr ?H (?L ! j) = (evenPad ?xs # ?A) ! j"
      using jhi by (intro nthL)
    ultimately show ?thesis
      by (simp only: n1 n2) blast
  qed
  let ?r = "\<lparr>tree = \<lparr>layers = ?L\<rparr>, root = Some (hd (last ?A))\<rparr>"
  have sel: "tree ?r = \<lparr>layers = ?L\<rparr>" "root ?r = Some (hd (last ?A))"
            "layers \<lparr>layers = ?L\<rparr> = ?L"
    by simp_all
  have c7': "\<forall>j. length (layers ?t1) \<le> j \<and> int j < TREELEVELS \<longrightarrow>
               (\<exists>w. arr ?H (?L ! (j - 1)) = [w, w] \<and> arr ?H (?L ! j) ! 0 = P w w)"
    using c7 by blast
  have body: "generateMerkleTree P a h = Inr (?r, ?H)
         \<and> int (length (layers (tree ?r))) = TREELEVELS
         \<and> layers (tree ?r) ! 0 = a
         \<and> arr ?H a = arr (ensureEven a h) a
         \<and> root ?r = Some v
         \<and> arr ?H (last (layers (tree ?r))) = [v]
         \<and> generateMerkleRoot P a \<lparr>layers = [a]\<rparr> h
               = Inr (length h + ?k - 1, ?t1, h[a := evenPad ?xs] @ ?U)
         \<and> take (length (layers ?t1)) (layers (tree ?r)) = layers ?t1
         \<and> (\<forall>j. length (layers ?t1) \<le> j \<and> int j < TREELEVELS \<longrightarrow>
               (\<exists>w. arr ?H (layers (tree ?r) ! (j - 1)) = [w, w]
                  \<and> arr ?H (layers (tree ?r) ! j) ! 0 = P w w))"
    unfolding sel
    by (intro conjI gmt gmr c1 c2 c3 c4 c5 c6 c7')
  show ?thesis
    apply (rule exI[of _ ?r])
    apply (rule exI[of _ ?H])
    apply (rule exI[of _ v])
    apply (rule exI[of _ "length h + ?k - 1"])
    apply (rule exI[of _ ?t1])
    apply (rule exI[of _ "h[a := evenPad ?xs] @ ?U"])
    apply (rule body)
    done
qed

theorem tree_has_fixed_depth_witness:
  "(0::nat) < length [[1, 2, 3::int]] \<and> [[1, 2, 3::int]] ! 0 \<noteq> []
   \<and> length ([[1, 2, 3::int]] ! 0) \<le> 524288
   \<and> (\<exists>r h' v ra t1 h1.
           generateMerkleTree sumHash 0 [[1, 2, 3]] = Inr (r, h')
         \<and> int (length (layers (tree r))) = TREELEVELS
         \<and> layers (tree r) ! 0 = 0
         \<and> arr h' 0 = arr (ensureEven 0 [[1, 2, 3]]) 0
         \<and> root r = Some v
         \<and> arr h' (last (layers (tree r))) = [v]
         \<and> generateMerkleRoot sumHash 0 \<lparr>layers = [0]\<rparr> [[1, 2, 3]] = Inr (ra, t1, h1)
         \<and> take (length (layers t1)) (layers (tree r)) = layers t1
         \<and> (\<forall>j. length (layers t1) \<le> j \<and> int j < TREELEVELS \<longrightarrow>
               (\<exists>w. arr h' (layers (tree r) ! (j - 1)) = [w, w]
                  \<and> arr h' (layers (tree r) ! j) ! 0 = sumHash w w)))"
  using tree_has_fixed_depth[of 0 "[[1, 2, 3]]" sumHash] by simp

text \<open>
  As stated, claim C3 fails for 524289 leaves: the pairwise reduction alone takes 21
  layers, and \<^verbatim>\<open>padTree\<close> neither adds nor removes one.
\<close>

theorem tree_depth_counterexample:
  "layerCount (generateMerkleTree sumHash 0 [replicate 524289 1]) = Inr 21"
proof -
  have "length (replicate 524289 (1::int)) = 524289"
    by (rule length_replicate)
  then have l: "length (aboveLeaves sumHash (replicate 524289 1)) = 20"
    by (rule length_aboveLeaves_large)
  have ne: "replicate 524289 (1::int) \<noteq> []"
    by (simp only: replicate_empty)
  have "layerCount (generateMerkleTree sumHash 0 [replicate 524289 1])
          = Inr (Suc (length (aboveLeaves sumHash (replicate 524289 1))))"
    by (rule layerCount_eq[OF _ _ ne]) simp_all
  then show ?thesis
    by (simp only: l) simp
qed

section \<open>Padding of an odd layer\<close>

lemma aboveLeaves_three: "aboveLeaves P [x, y, z] ! 0 = [P x y, P z z]"
proof -
  let ?c = "[P x y, P z z]"
  have e: "evenPad [x, y, z] = [x, y, z, z]" "evenPad ?c = ?c"
    by (simp_all add: evenPad_def)
  have "upper P [x, y, z] = ?c # upper P ?c"
    by (simp add: upper.simps[of P "[x, y, z]"] e)
  then show ?thesis
    by (simp add: aboveLeaves_def)
qed

text \<open>
  Claim C9.  For all elements \<open>x\<close>, \<open>y\<close>, \<open>z\<close>: building a tree from \<open>[x, y, z]\<close> turns
  the array into \<open>[x, y, z, z]\<close> before hashing, so that layer 1 is
  \<open>[P x y, P z z]\<close>, and the tree has the same root as the tree built from \<open>[x, y, z, z]\<close>.
\<close>

theorem odd_layer_padding:
  assumes "a < length h" and "h ! a = [x, y, z]" and "b < length g" and "g ! b = [x, y, z, z]"
  shows "\<exists>r h' r2 g' v.
           generateMerkleTree P a h = Inr (r, h')
         \<and> arr h' a = [x, y, z, z]
         \<and> arr h' (layers (tree r) ! 1) = [P x y, P z z]
         \<and> generateMerkleTree P b g = Inr (r2, g')
         \<and> root r = Some v \<and> root r2 = Some v"
proof -
  let ?A = "aboveLeaves P [x, y, z]"
  let ?H = "h[a := [x, y, z, z]] @ ?A"
  let ?r = "\<lparr>tree = \<lparr>layers = a # [length h ..< length h + length ?A]\<rparr>,
             root = Some (hd (last ?A))\<rparr>"
  let ?G = "g[b := [x, y, z, z]] @ ?A"
  let ?r2 = "\<lparr>tree = \<lparr>layers = b # [length g ..< length g + length ?A]\<rparr>,
             root = Some (hd (last ?A))\<rparr>"
  have e: "evenPad [x, y, z] = [x, y, z, z]" "evenPad [x, y, z, z] = [x, y, z, z]"
    by (simp_all add: evenPad_def)
  have same: "aboveLeaves P [x, y, z, z] = ?A"
    using aboveLeaves_evenPad[of P "[x, y, z]"] by (simp only: e)
  have t1: "generateMerkleTree P a h = Inr (?r, ?H)"
    using generateMerkleTree_eq[OF assms(1,2), of P] by (simp only: e) simp
  have t2: "generateMerkleTree P b g = Inr (?r2, ?G)"
    using generateMerkleTree_eq[OF assms(3,4), of P] by (simp only: e same) simp
  have l0: "arr ?H a = [x, y, z, z]"
    using assms(1) by (simp add: arr_def nth_append)
  have pos: "0 < length ?A"
    using aboveLeaves_not_Nil[of P "[x, y, z]"] by (simp del: aboveLeaves_not_Nil)
  then have "layers (tree ?r) ! 1 = length h"
    by (simp add: upt_conv_Cons del: upt_Suc)
  moreover have "arr ?H (length h) = ?A ! 0"
    using pos by (simp add: arr_def nth_append)
  ultimately have l1: "arr ?H (layers (tree ?r) ! 1) = [P x y, P z z]"
    by (simp only: aboveLeaves_three)
  have body: "generateMerkleTree P a h = Inr (?r, ?H)
         \<and> arr ?H a = [x, y, z, z]
         \<and> arr ?H (layers (tree ?r) ! 1) = [P x y, P z z]
         \<and> generateMerkleTree P b g = Inr (?r2, ?G)
         \<and> root ?r = Some (hd (last ?A)) \<and> root ?r2 = Some (hd (last ?A))"
    by (intro conjI t1 t2 l0 l1) simp_all
  show ?thesis
    apply (rule exI[of _ ?r])
    apply (rule exI[of _ ?H])
    apply (rule exI[of _ ?r2])
    apply (rule exI[of _ ?G])
    apply (rule exI[of _ "hd (last ?A)"])
    apply (rule body)
    done
qed

theorem odd_layer_padding_witness:
  "(0::nat) < length [[1, 2, 3::int]] \<and> [[1, 2, 3::int]] ! 0 = [1, 2, 3]
   \<and> (0::nat) < length [[1, 2, 3, 3::int]] \<and> [[1, 2, 3, 3::int]] ! 0 = [1, 2, 3, 3]
   \<and> (\<exists>r h' r2 g' v.
           generateMerkleTree sumHash 0 [[1, 2, 3]] = Inr (r, h')
         \<and> arr h' 0 = [1, 2, 3, 3]
         \<and> arr h' (layers (tree r) ! 1) = [sumHash 1 2, sumHash 3 3]
         \<and> generateMerkleTree sumHash 0 [[1, 2, 3, 3]] = Inr (r2, g')
         \<and> root r = Some v \<and> root r2 = Some v)"
  using odd_layer_padding[of 0 "[[1, 2, 3]]" 1 2 3 0 "[[1, 2, 3, 3]]" sumHash] by simp

section \<open>The caller's array\<close>

text \<open>
  Claim C7, amended.  For a non-empty array of leaves, \<^verbatim>\<open>generateMerkleTree(leaves)\<close> and
  \<^verbatim>\<open>generateMerkleProof(x, leaves, null)\<close> with \<open>x\<close> other than 0 leave every array that
  existed before the call as \<^verbatim>\<open>ensureEven(leaves)\<close> leaves it: the caller's array
  unchanged when its length is even, with its last element appended when its length is odd,
  and every other array unchanged.  With the leaf 0, and with a cached tree, the call
  changes nothing in the store.
\<close>

theorem leaves_frame:
  assumes "a < length h" and "h ! a \<noteq> []"
  shows "(\<exists>r h'. generateMerkleTree P a h = Inr (r, h') \<and> take (length h) h' = ensureEven a h)
       \<and> (\<exists>p h'. generateMerkleProof P x a None h = Inr (p, h')
              \<and> take (length h) h' = (if x = 0 then h else ensureEven a h))
       \<and> (generateMerkleProof P x a (Some c) h = Inl TypeError
            \<or> (\<exists>p. generateMerkleProof P x a (Some c) h = Inr (p, h)))
       \<and> ensureEven a h
            = (if length (h ! a) mod 2 = 0 then h else h[a := h ! a @ [last (h ! a)]])"
proof (intro conjI)
  show "\<exists>r h'. generateMerkleTree P a h = Inr (r, h') \<and> take (length h) h' = ensureEven a h"
    using assms by (simp add: generateMerkleTree_eq[OF assms(1) refl assms(2)] ensureEven_eq)
  show "\<exists>p h'. generateMerkleProof P x a None h = Inr (p, h')
              \<and> take (length h) h' = (if x = 0 then h else ensureEven a h)"
  proof (cases "x = 0")
    case True
    then show ?thesis by (simp add: generateMerkleProof_def)
  next
    case False
    then show ?thesis
      using assms by (simp add: generateMerkleProof_eq[OF assms(1) refl assms(2) False] ensureEven_eq)
  qed
  show "generateMerkleProof P x a (Some c) h = Inl TypeError
            \<or> (\<exists>p. generateMerkleProof P x a (Some c) h = Inr (p, h))"
    by (cases "layers c")
       (simp_all add: generateMerkleProof_def getLeafNodeDirectionInMerkleTree_def Let_def)
  show "ensureEven a h
            = (if length (h ! a) mod 2 = 0 then h else h[a := h ! a @ [last (h ! a)]])"
    using assms(1) by (simp add: ensureEven_def push_def arr_def)
qed

theorem leaves_frame_witness:
  "(0::nat) < length [[1, 2, 3::int]] \<and> [[1, 2, 3::int]] ! 0 \<noteq> []
   \<and> (\<exists>r h'. generateMerkleTree sumHash 0 [[1, 2, 3]] = Inr (r, h')
          \<and> take (length [[1, 2, 3::int]]) h' = ensureEven 0 [[1, 2, 3]])
   \<and> (\<exists>p h'. generateMerkleProof sumHash 2 0 None [[1, 2, 3]] = Inr (p, h')
          \<and> take (length [[1, 2, 3::int]]) h' = (if (2::int) = 0 then [[1, 2, 3]] else ensureEven 0 [[1, 2, 3]]))
   \<and> (generateMerkleProof sumHash 2 0 (Some \<lparr>layers = [0]\<rparr>) [[1, 2, 3]] = Inl TypeError
        \<or> (\<exists>p. generateMerkleProof sumHash 2 0 (Some \<lparr>layers = [0]\<rparr>) [[1, 2, 3]]
                = Inr (p, [[1, 2, 3]])))
   \<and> ensureEven 0 [[1, 2, 3]]
        = (if length ([[1, 2, 3::int]] ! 0) mod 2 = 0 then [[1, 2, 3]]
           else [[1, 2, 3]][0 := [[1, 2, 3]] ! 0 @ [last ([[1, 2, 3]] ! 0)]])"
proof -
  have h1: "(0::nat) < length [[1, 2, 3::int]]" by simp
  have h2: "[[1, 2, 3::int]] ! 0 \<noteq> []" by simp
  show ?thesis
    by (rule conjI[OF h1 conjI[OF h2 leaves_frame[OF h1 h2, of sumHash 2 "\<lparr>layers = [0]\<rparr>"]]])
qed

text \<open>
  As stated, claim C7 fails for an array of odd length: after either call the caller's array
  \<open>[1, 2, 3]\<close> is \<open>[1, 2, 3, 3]\<close>.
\<close>

theorem leaves_mutated_counterexample:
  "leavesAfter 0 (generateMerkleTree sumHash 0 [[1, 2, 3]]) = Inr [1, 2, 3, 3]
   \<and> leavesAfter 0 (generateMerkleProof sumHash 2 0 None [[1, 2, 3]]) = Inr [1, 2, 3, 3]"
  by code_simp

section \<open>A leaf that is absent\<close>

text \<open>
  A leaf that is not in the array: \<^verbatim>\<open>findIndex\<close> returns \<open>-1\<close>, which is odd and whose
  half, rounded down, is \<open>-1\<close> again; every sibling is read at index \<open>-2\<close>.
\<close>

lemma siblings_absent:
  "siblings ls (- 1) = replicate (length ls - 1) \<lparr>hash = None, direction = LEFT\<rparr>"
proof (induction ls "- 1 :: int" rule: siblings.induct)
  case (1 l l' rest)
  then show ?case by (simp add: elemAt_def)
qed simp_all

lemma absent_leaf_proof:
  assumes "a < length h" and "h ! a \<noteq> []" and "x \<noteq> 0" and "x \<notin> set (h ! a)"
  shows "generatedProof (generateMerkleProof P x a None h)
           = Inr (Some (\<lparr>hash = Some x, direction = RIGHT\<rparr>
                        # replicate (length (aboveLeaves P (h ! a)))
                            \<lparr>hash = None, direction = LEFT\<rparr>))"
proof -
  have "findIndex (evenPad (h ! a)) x = - 1"
    using assms(4) by (intro findIndex_notin) simp
  then show ?thesis
    by (simp add: generatedProof_def generateMerkleProof_eq[OF assms(1) refl assms(2,3)]
        siblings_absent)
qed

text \<open>
  Claim C2 at the leaves \<open>[1, 2]\<close> and the absent leaf 5: the call does not fail; it returns
  twenty entries, the leaf with direction RIGHT and nineteen siblings \<^verbatim>\<open>undefined\<close> with
  direction LEFT.
\<close>

theorem absent_leaf_gets_proof:
  "generatedProof (generateMerkleProof sumHash 5 0 None [[1, 2]])
     = Inr (Some (\<lparr>hash = Some 5, direction = RIGHT\<rparr>
                  # replicate 19 \<lparr>hash = None, direction = LEFT\<rparr>))"
  by code_simp

section \<open>Empty leaves\<close>

text \<open>
  Claim C5 at the empty array, in any store: \<^verbatim>\<open>generateMerkleRoot\<close> returns at once,
  then \<^verbatim>\<open>padTree\<close> reads \<^verbatim>\<open>tree.layers[0][0]\<close>, which is \<^verbatim>\<open>undefined\<close>, and
  \<^verbatim>\<open>hashLeaves(undefined, undefined)\<close> throws a TypeError.
\<close>

theorem empty_leaves_throw:
  "generateMerkleTree P (length h) (h @ [[]]) = Inl TypeError"
proof -
  let ?a = "length h"
  let ?h = "h @ [[]]"
  have "arr ?h ?a = []" by (simp add: arr_def)
  then have g: "generateMerkleRoot P ?a \<lparr>layers = [?a]\<rparr> ?h
                  = Inr (length ?h, \<lparr>layers = [?a]\<rparr>, ?h @ [[]])"
    by (simp add: generateMerkleRoot.simps[of P ?a])
  have "arr (?h @ [[]]) ?a = []" by (simp add: arr_def nth_append)
  then have "padLoop P 0 \<lparr>layers = [?a]\<rparr> (?h @ [[]]) = Inl TypeError"
    by (simp add: padLoop.simps[of P 0] TREELEVELS_def elemAt_def)
  then show ?thesis
    by (simp add: generateMerkleTree_def g padTree_def)
qed

end
